theory Spec2Isabelle
  imports Complex_Main "HOL-Library.Char_ord" "HOL-Library.List_Lexorder" "HOL-Library.Multiset"
begin

section \<open>Python values used by solution.py\<close>

text \<open>
  The exceptions the modelled code can raise. Every function that can raise returns
  \<open>py_error + 'a\<close>, with \<open>Inl\<close> for the exception.
\<close>

datatype py_error = IndexError | AttributeError | ZeroDivisionError | StatisticsError

text \<open>
  List indexing \<^verbatim>\<open>xs[i]\<close>: a negative index counts from the end, an index out of
  range raises IndexError.
\<close>

definition getitem :: "'a list \<Rightarrow> int \<Rightarrow> py_error + 'a" where
  "getitem xs i =
     (if 0 \<le> i \<and> i < int (length xs) then Inr (xs ! nat i)
      else if - int (length xs) \<le> i \<and> i < 0 then Inr (xs ! nat (int (length xs) + i))
      else Inl IndexError)"

subsection \<open>Strings\<close>

text \<open>
  A Python \<^verbatim>\<open>str\<close> is modelled as a \<open>string\<close> whose characters are the code points
  below 256. \<open>isspace\<close> lists the code points below 256 that \<^verbatim>\<open>str.isspace\<close> accepts:
  tab to carriage return, the four separators 28 to 31, the space, NEL (133) and the
  no-break space (160). \<open>upper\<close> is \<^verbatim>\<open>str.upper\<close> on ASCII letters; other characters
  are left as they are.
\<close>

definition isspace :: "char \<Rightarrow> bool" where
  "isspace c = ((of_char c :: nat) \<in> {9, 10, 11, 12, 13, 28, 29, 30, 31, 32, 133, 160})"

definition strip :: "string \<Rightarrow> string" where
  "strip s = rev (dropWhile isspace (rev (dropWhile isspace s)))"



text \<open>
  \<^verbatim>\<open>s.split(',')\<close>: the pieces between the commas, empty pieces kept, so the empty
  string gives one empty piece. \<open>cur\<close> holds the current piece, reversed.
\<close>

fun split_from :: "string \<Rightarrow> string \<Rightarrow> string list" where
  "split_from cur [] = [rev cur]"
| "split_from cur (c # cs) =
     (if c = CHR '','' then rev cur # split_from [] cs else split_from (c # cur) cs)"

definition split_comma :: "string \<Rightarrow> string list" where
  "split_comma s = split_from [] s"

subsection \<open>collections.Counter\<close>

text \<open>
  A Counter is a dict, and a dict keeps its keys in insertion order; the order decides
  \<^verbatim>\<open>most_common\<close> and the iteration of \<^verbatim>\<open>items()\<close>. It is modelled as an association
  list in insertion order. \<open>dict_get\<close> is \<^verbatim>\<open>d.get(k, default)\<close>; \<open>dict_set\<close> is
  \<^verbatim>\<open>d[k] = v\<close>, which overwrites in place or appends a new key at the end.
  \<open>count_elements\<close> is the loop of \<^verbatim>\<open>Counter(iterable)\<close>:
  \<^verbatim>\<open>for elem in iterable: mapping[elem] = mapping.get(elem, 0) + 1\<close>.
\<close>

type_synonym 'k counter = "('k \<times> int) list"

definition dict_get :: "('k \<times> 'v) list \<Rightarrow> 'k \<Rightarrow> 'v \<Rightarrow> 'v" where
  "dict_get d k dflt = (case map_of d k of None \<Rightarrow> dflt | Some v \<Rightarrow> v)"

fun dict_set :: "('k \<times> 'v) list \<Rightarrow> 'k \<Rightarrow> 'v \<Rightarrow> ('k \<times> 'v) list" where
  "dict_set [] k v = [(k, v)]"
| "dict_set ((k', v') # d) k v =
     (if k' = k then (k', v) # d else (k', v') # dict_set d k v)"

fun count_elements :: "'k counter \<Rightarrow> 'k list \<Rightarrow> 'k counter" where
  "count_elements mapping [] = mapping"
| "count_elements mapping (elem # rest) =
     count_elements (dict_set mapping elem (dict_get mapping elem 0 + 1)) rest"

definition Counter :: "'k list \<Rightarrow> 'k counter" where
  "Counter iterable = count_elements [] iterable"

text \<open>
  \<^verbatim>\<open>most_common(1)\<close> is \<^verbatim>\<open>heapq.nlargest(1, items, key=count)\<close>, which for one
  element is \<^verbatim>\<open>max(items, key=count)\<close>, or the empty list when there are no items.
  \<^verbatim>\<open>max\<close> keeps the item it holds unless a later one is strictly greater.
\<close>

fun max_by_count :: "('k \<times> int) \<Rightarrow> ('k \<times> int) list \<Rightarrow> ('k \<times> int)" where
  "max_by_count best [] = best"
| "max_by_count best (item # rest) =
     max_by_count (if snd item > snd best then item else best) rest"

definition most_common_1 :: "'k counter \<Rightarrow> ('k \<times> int) list" where
  "most_common_1 c = (case c of [] \<Rightarrow> [] | item # rest \<Rightarrow> [max_by_count item rest])"

subsection \<open>statistics.variance\<close>


section \<open>class BincomPythonTest\<close>

record BincomPythonTest =
  html_file :: "string option"
  colors :: "string list"
  color_counter :: "string counter option"

definition init :: "string option \<Rightarrow> BincomPythonTest" where
  "init file = \<lparr>html_file = file, colors = [], color_counter = None\<rparr>"

subsection \<open>Loading and cleaning the colors\<close>

fun clean_loop :: "string list \<Rightarrow> string list \<Rightarrow> string list" where
  "clean_loop [] cleaned_colors = cleaned_colors"
| "clean_loop (color # rest) cleaned_colors =
     (let color' = (if color = ''BLEW'' then ''BLUE''
                    else if color = ''ARSH'' then ''ASH'' else color)
      in clean_loop rest (if color' \<noteq> [] then cleaned_colors @ [color'] else cleaned_colors))"

definition clean_colors :: "string list \<Rightarrow> string list" where
  "clean_colors color_list = clean_loop color_list []"

text \<open>
  The loop shared by \<^verbatim>\<open>extract_colors_from_file\<close> and
  \<^verbatim>\<open>extract_colors_from_hardcoded\<close>: each day's string is split at the commas, every
  piece is stripped, and the pieces are appended to \<^verbatim>\<open>all_colors\<close>.
\<close>

fun collect_colors :: "(string \<times> string) list \<Rightarrow> string list \<Rightarrow> string list" where
  "collect_colors [] all_colors = all_colors"
| "collect_colors ((day, colors_str) # rest) all_colors =
     collect_colors rest (all_colors @ map strip (split_comma colors_str))"

definition color_data :: "(string \<times> string) list" where
  "color_data =
     [(''MONDAY'', ''GREEN, YELLOW, GREEN, BROWN, BLUE, PINK, BLUE, YELLOW, ORANGE, CREAM, ORANGE, RED, WHITE, BLUE, WHITE, BLUE, BLUE, BLUE, GREEN''),
      (''TUESDAY'', ''ARSH, BROWN, GREEN, BROWN, BLUE, BLUE, BLEW, PINK, PINK, ORANGE, ORANGE, RED, WHITE, BLUE, WHITE, WHITE, BLUE, BLUE, BLUE''),
      (''WEDNESDAY'', ''GREEN, YELLOW, GREEN, BROWN, BLUE, PINK, RED, YELLOW, ORANGE, RED, ORANGE, RED, BLUE, BLUE, WHITE, BLUE, BLUE, WHITE, WHITE''),
      (''THURSDAY'', ''BLUE, BLUE, GREEN, WHITE, BLUE, BROWN, PINK, YELLOW, ORANGE, CREAM, ORANGE, RED, WHITE, BLUE, WHITE, BLUE, BLUE, BLUE, GREEN''),
      (''FRIDAY'', ''GREEN, WHITE, GREEN, BROWN, BLUE, BLUE, BLACK, WHITE, ORANGE, RED, RED, RED, WHITE, BLUE, WHITE, BLUE, BLUE, BLUE, WHITE'')]"

definition extract_colors_from_hardcoded :: "string list" where
  "extract_colors_from_hardcoded = clean_colors (collect_colors color_data [])"

text \<open>
  \<^verbatim>\<open>extract_colors_from_file\<close> reads the file and matches the table rows with a
  regular expression; neither is modelled. The function takes the list of matches
  \<open>(day, colors_str)\<close> that \<^verbatim>\<open>re.findall\<close> returned.
\<close>

definition extract_colors_from_file :: "(string \<times> string) list \<Rightarrow> string list" where
  "extract_colors_from_file matches = clean_colors (collect_colors matches [])"

text \<open>
  \<^verbatim>\<open>load_data\<close>: \<open>file_matches\<close> is what reading and matching the file gave, \<open>None\<close>
  when it raised (the \<^verbatim>\<open>except\<close> branch). An empty file name is falsy, like \<open>None\<close>.
  The result is the updated object and the returned number of colors.
\<close>

definition load_data ::
  "BincomPythonTest \<Rightarrow> (string \<times> string) list option \<Rightarrow> BincomPythonTest \<times> int" where
  "load_data self file_matches =
     (let cs =
        (case html_file self of
           None \<Rightarrow> extract_colors_from_hardcoded
         | Some file \<Rightarrow>
             if file \<noteq> [] then
               (case file_matches of
                  Some matches \<Rightarrow> extract_colors_from_file matches
                | None \<Rightarrow> extract_colors_from_hardcoded)
             else extract_colors_from_hardcoded);
          self' = self\<lparr>colors := cs, color_counter := Some (Counter cs)\<rparr>
      in (self', int (length (colors self'))))"

subsection \<open>Statistics over the frequency table\<close>

text \<open>
  Each method reads \<^verbatim>\<open>self.color_counter\<close>; before \<^verbatim>\<open>load_data\<close> it is \<open>None\<close> and
  the attribute access on it raises AttributeError.
\<close>

definition get_most_common_color :: "BincomPythonTest \<Rightarrow> py_error + (string \<times> int)" where
  "get_most_common_color self =
     (case color_counter self of
        None \<Rightarrow> Inl AttributeError
      | Some cc \<Rightarrow> getitem (most_common_1 cc) 0)"

fun expand_colors :: "string counter \<Rightarrow> string list \<Rightarrow> string list" where
  "expand_colors [] expanded_colors = expanded_colors"
| "expand_colors ((color, freq) # rest) expanded_colors =
     expand_colors rest (expanded_colors @ replicate (nat freq) color)"

definition get_median_color :: "BincomPythonTest \<Rightarrow> py_error + string" where
  "get_median_color self =
     (case color_counter self of
        None \<Rightarrow> Inl AttributeError
      | Some cc \<Rightarrow>
          let expanded_colors = sort (expand_colors cc []);
              n = int (length expanded_colors);
              middle_idx = n div 2
          in getitem expanded_colors middle_idx)"



subsection \<open>recursive_search\<close>

text \<open>
  \<open>end_arg\<close> is the optional parameter \<^verbatim>\<open>end=None\<close>; floor division \<^verbatim>\<open>//\<close> is \<open>div\<close>
  on \<open>int\<close>.
\<close>

function recursive_search ::
  "'a::linorder list \<Rightarrow> 'a \<Rightarrow> int \<Rightarrow> int option \<Rightarrow> py_error + int" where
  "recursive_search numbers target start end_arg =
     (let end = (case end_arg of None \<Rightarrow> int (length numbers) - 1 | Some e \<Rightarrow> e) in
      if start > end then Inr (- 1)
      else
        let mid = (start + end) div 2 in
        case getitem numbers mid of
          Inl err \<Rightarrow> Inl err
        | Inr x \<Rightarrow>
            if x = target then Inr mid
            else if x > target then recursive_search numbers target start (Some (mid - 1))
            else recursive_search numbers target (mid + 1) (Some end))"
  by pat_completeness auto
termination
  apply (relation "measure (\<lambda>(numbers, target, start, end_arg).
      nat ((case end_arg of None \<Rightarrow> int (length numbers) - 1 | Some e \<Rightarrow> e) - start + 1))")
   apply (auto split: option.splits)
  done

declare recursive_search.simps [simp del]

subsection \<open>sum_fibonacci\<close>

text \<open>
  The loop \<^verbatim>\<open>for i in range(2, n+1)\<close> runs over the indices \<open>[2..n]\<close>; its state is
  \<open>(a, b, total_sum)\<close>. The argument is optional, with default 50.
\<close>

fun fib_loop :: "int list \<Rightarrow> int \<times> int \<times> int \<Rightarrow> int \<times> int \<times> int" where
  "fib_loop [] (a, b, total_sum) = (a, b, total_sum)"
| "fib_loop (i # rest) (a, b, total_sum) = fib_loop rest (b, a + b, total_sum + (a + b))"

definition sum_fibonacci :: "int option \<Rightarrow> int" where
  "sum_fibonacci n_arg =
     (let n = (case n_arg of None \<Rightarrow> 50 | Some n \<Rightarrow> n) in
      if n \<le> 0 then 0
      else case fib_loop [2..n] (0, 1, 1) of (a, b, total_sum) \<Rightarrow> total_sum)"

text \<open>
  The Fibonacci numbers as the specification numbers them, \<open>F(1) = 1\<close> and
  \<open>F(2) = 1\<close>; \<open>sum_fibonacci\<close> is compared with their sum.
\<close>

fun fibonacci_spec :: "nat \<Rightarrow> int" where
  "fibonacci_spec 0 = 0"
| "fibonacci_spec (Suc 0) = 1"
| "fibonacci_spec (Suc (Suc n)) = fibonacci_spec n + fibonacci_spec (Suc n)"

section \<open>analyze_binary_sequence_puzzle\<close>

text \<open>
  The verification loop, for an input sequence: \<^verbatim>\<open>range(len(input_sequence) - 2)\<close> is
  \<open>[0..<nat (int (length s) - 2)]\<close> (empty when the length is below 2), the slice
  \<^verbatim>\<open>input_sequence[i:i+3]\<close> is \<open>take 3 (drop i s)\<close>, and two zeroes are appended after
  the loop.
\<close>

fun window_loop :: "string \<Rightarrow> nat list \<Rightarrow> string \<Rightarrow> string" where
  "window_loop input_sequence [] calculated_output = calculated_output"
| "window_loop input_sequence (i # rest) calculated_output =
     (let window = take 3 (drop i input_sequence)
      in window_loop input_sequence rest
           (if window = ''111'' then calculated_output @ ''1'' else calculated_output @ ''0''))"

definition calculated_output :: "string \<Rightarrow> string" where
  "calculated_output input_sequence =
     window_loop input_sequence [0..<nat (int (length input_sequence) - 2)] []
       @ replicate 2 CHR ''0''"

definition input_sequence :: string where
  "input_sequence = ''0101101011101011011101101000111''"

definition output_sequence :: string where
  "output_sequence = ''0000000000100000000100000000001''"

text \<open>
  The function prints; the model returns the two values of its last two lines: the
  calculated string and the result of the comparison.
\<close>

definition analyze_binary_sequence_puzzle :: "string \<times> bool" where
  "analyze_binary_sequence_puzzle =
     (calculated_output input_sequence, calculated_output input_sequence = output_sequence)"

section \<open>Properties\<close>

subsection \<open>Binary search\<close>

lemma recursive_search_default_end:
  "recursive_search numbers target start None =
   recursive_search numbers target start (Some (int (length numbers) - 1))"
  by (subst recursive_search.simps, subst (2) recursive_search.simps) simp

lemma recursive_search_base:
  "end < start \<Longrightarrow> recursive_search numbers target start (Some end) = Inr (- 1)"
  by (subst recursive_search.simps) simp

lemma getitem_in_range:
  "0 \<le> i \<Longrightarrow> i < int (length xs) \<Longrightarrow> getitem xs i = Inr (xs ! nat i)"
  by (simp add: getitem_def)

lemma recursive_search_step:
  assumes "start \<le> end" "0 \<le> start" "end < int (length numbers)"
  shows "recursive_search numbers target start (Some end) =
     (let mid = (start + end) div 2; x = numbers ! nat mid in
      if x = target then Inr mid
      else if x > target then recursive_search numbers target start (Some (mid - 1))
      else recursive_search numbers target (mid + 1) (Some end))"
proof -
  have "0 \<le> (start + end) div 2" "(start + end) div 2 < int (length numbers)"
    using assms by linarith+
  then have g: "getitem numbers ((start + end) div 2) = Inr (numbers ! nat ((start + end) div 2))"
    by (rule getitem_in_range)
  show ?thesis
    using assms(1) by (subst recursive_search.simps) (simp add: g Let_def)
qed

lemma sorted_nth_int_mono:
  assumes "sorted xs" "0 \<le> i" "i \<le> j" "j < int (length xs)"
  shows "xs ! nat i \<le> xs ! nat j"
  using assms by (intro sorted_nth_mono) auto

text \<open>
  The search on an index range inside the list: it returns an index of the range that
  holds the target when the range holds it, and \<open>- 1\<close> otherwise. Induction on the
  width of the range.
\<close>

lemma recursive_search_range:
  assumes "sorted numbers"
  shows "0 \<le> start \<Longrightarrow> end < int (length numbers) \<Longrightarrow>
    \<exists>i. recursive_search numbers target start (Some end) = Inr i \<and>
      (if \<exists>j. start \<le> j \<and> j \<le> end \<and> numbers ! nat j = target
       then start \<le> i \<and> i \<le> end \<and> numbers ! nat i = target
       else i = - 1)"
proof (induction "nat (end - start + 1)" arbitrary: start "end" rule: less_induct)
  case less
  show ?case
  proof (cases "start \<le> end")
    case False
    then show ?thesis
      using recursive_search_base [of "end" start numbers target] by auto
  next
    case True
    define mid where "mid = (start + end) div 2"
    have mid: "start \<le> mid" "mid \<le> end" "0 \<le> mid" "mid < int (length numbers)"
      using True less.prems by (auto simp: mid_def)
    have step: "recursive_search numbers target start (Some end) =
      (if numbers ! nat mid = target then Inr mid
       else if numbers ! nat mid > target
         then recursive_search numbers target start (Some (mid - 1))
         else recursive_search numbers target (mid + 1) (Some end))"
      using recursive_search_step [OF True less.prems] by (simp add: Let_def mid_def)
    consider (eq) "numbers ! nat mid = target"
      | (gt) "numbers ! nat mid > target" | (lt) "numbers ! nat mid < target"
      by fastforce
    then show ?thesis
    proof cases
      case eq
      then have "recursive_search numbers target start (Some end) = Inr mid"
        using step by simp
      moreover have "\<exists>j. start \<le> j \<and> j \<le> end \<and> numbers ! nat j = target"
        using eq mid by blast
      ultimately show ?thesis using eq mid by simp
    next
      case gt
      have "nat (mid - 1 - start + 1) < nat (end - start + 1)"
        using mid by linarith
      moreover have "mid - 1 < int (length numbers)" using mid by linarith
      ultimately obtain i where i: "recursive_search numbers target start (Some (mid - 1)) = Inr i"
        "if \<exists>j. start \<le> j \<and> j \<le> mid - 1 \<and> numbers ! nat j = target
         then start \<le> i \<and> i \<le> mid - 1 \<and> numbers ! nat i = target
         else i = - 1"
        using less.hyps [of "mid - 1" start] less.prems(1) by blast
      have right: "numbers ! nat j \<noteq> target" if "mid \<le> j" "j \<le> end" for j
      proof -
        have "numbers ! nat mid \<le> numbers ! nat j"
          using sorted_nth_int_mono [OF assms mid(3) that(1)] that(2) less.prems(2) by linarith
        then show ?thesis using gt by auto
      qed
      have same: "(\<exists>j. start \<le> j \<and> j \<le> end \<and> numbers ! nat j = target) \<longleftrightarrow>
          (\<exists>j. start \<le> j \<and> j \<le> mid - 1 \<and> numbers ! nat j = target)"
      proof
        assume "\<exists>j. start \<le> j \<and> j \<le> end \<and> numbers ! nat j = target"
        then obtain j where j: "start \<le> j" "j \<le> end" "numbers ! nat j = target" by blast
        then have "\<not> mid \<le> j" using right by blast
        then have "j \<le> mid - 1" by linarith
        then show "\<exists>j. start \<le> j \<and> j \<le> mid - 1 \<and> numbers ! nat j = target"
          using j by blast
      next
        assume "\<exists>j. start \<le> j \<and> j \<le> mid - 1 \<and> numbers ! nat j = target"
        then obtain j where j: "start \<le> j" "j \<le> mid - 1" "numbers ! nat j = target" by blast
        then have "j \<le> end" using mid(2) by linarith
        then show "\<exists>j. start \<le> j \<and> j \<le> end \<and> numbers ! nat j = target"
          using j by blast
      qed
      have "numbers ! nat mid \<noteq> target" using gt by simp
      then have "recursive_search numbers target start (Some end) = Inr i"
        using step gt i(1) by simp
      moreover have "i \<le> mid - 1 \<Longrightarrow> i \<le> end" using mid(2) by linarith
      ultimately show ?thesis
        using i(2) unfolding same by (intro exI [of _ i]) (auto split: if_splits)
    next
      case lt
      have "nat (end - (mid + 1) + 1) < nat (end - start + 1)"
        using mid by linarith
      moreover have "0 \<le> mid + 1" using mid by linarith
      ultimately obtain i where i: "recursive_search numbers target (mid + 1) (Some end) = Inr i"
        "if \<exists>j. mid + 1 \<le> j \<and> j \<le> end \<and> numbers ! nat j = target
         then mid + 1 \<le> i \<and> i \<le> end \<and> numbers ! nat i = target
         else i = - 1"
        using less.hyps [of "end" "mid + 1"] less.prems(2) by blast
      have left: "numbers ! nat j \<noteq> target" if "start \<le> j" "j \<le> mid" for j
      proof -
        have "0 \<le> j" using that less.prems(1) by linarith
        then have "numbers ! nat j \<le> numbers ! nat mid"
          using sorted_nth_int_mono [OF assms _ that(2) mid(4)] by blast
        then show ?thesis using lt by auto
      qed
      have same: "(\<exists>j. start \<le> j \<and> j \<le> end \<and> numbers ! nat j = target) \<longleftrightarrow>
          (\<exists>j. mid + 1 \<le> j \<and> j \<le> end \<and> numbers ! nat j = target)"
      proof
        assume "\<exists>j. start \<le> j \<and> j \<le> end \<and> numbers ! nat j = target"
        then obtain j where j: "start \<le> j" "j \<le> end" "numbers ! nat j = target" by blast
        then have "\<not> j \<le> mid" using left by blast
        then show "\<exists>j. mid + 1 \<le> j \<and> j \<le> end \<and> numbers ! nat j = target"
          using j by (intro exI [of _ j]) simp
      next
        assume "\<exists>j. mid + 1 \<le> j \<and> j \<le> end \<and> numbers ! nat j = target"
        then obtain j where j: "mid + 1 \<le> j" "j \<le> end" "numbers ! nat j = target" by blast
        then have "start \<le> j" using mid(1) by linarith
        then show "\<exists>j. start \<le> j \<and> j \<le> end \<and> numbers ! nat j = target"
          using j by blast
      qed
      have "numbers ! nat mid \<noteq> target" "\<not> numbers ! nat mid > target"
        using lt by simp_all
      then have "recursive_search numbers target start (Some end) = Inr i"
        using step i(1) by simp
      moreover have "mid + 1 \<le> i \<Longrightarrow> start \<le> i" using mid(1) by linarith
      ultimately show ?thesis
        using i(2) unfolding same by (intro exI [of _ i]) (auto split: if_splits)
    qed
  qed
qed

lemma recursive_search_whole_list:
  assumes "sorted numbers"
  shows "\<exists>i. recursive_search numbers target 0 None = Inr i \<and>
      (if target \<in> set numbers
       then 0 \<le> i \<and> i < int (length numbers) \<and> numbers ! nat i = target
       else i = - 1)"
proof -
  have occurs: "(\<exists>j. 0 \<le> j \<and> j \<le> int (length numbers) - 1 \<and> numbers ! nat j = target)
      \<longleftrightarrow> target \<in> set numbers"
  proof
    assume "\<exists>j. 0 \<le> j \<and> j \<le> int (length numbers) - 1 \<and> numbers ! nat j = target"
    then obtain j where j: "0 \<le> j" "j \<le> int (length numbers) - 1" "numbers ! nat j = target"
      by blast
    then have "nat j < length numbers" by linarith
    then show "target \<in> set numbers" using j(3) nth_mem by blast
  next
    assume "target \<in> set numbers"
    then obtain k where k: "k < length numbers" "numbers ! k = target"
      by (auto simp: in_set_conv_nth)
    then have "0 \<le> int k \<and> int k \<le> int (length numbers) - 1 \<and> numbers ! nat (int k) = target"
      by simp
    then show "\<exists>j. 0 \<le> j \<and> j \<le> int (length numbers) - 1 \<and> numbers ! nat j = target"
      by blast
  qed
  obtain i where i: "recursive_search numbers target 0 (Some (int (length numbers) - 1)) = Inr i"
    "if \<exists>j. 0 \<le> j \<and> j \<le> int (length numbers) - 1 \<and> numbers ! nat j = target
     then 0 \<le> i \<and> i \<le> int (length numbers) - 1 \<and> numbers ! nat i = target
     else i = - 1"
    using recursive_search_range [OF assms, of 0 "int (length numbers) - 1" target] by auto
  have "i \<le> int (length numbers) - 1 \<Longrightarrow> i < int (length numbers)" by linarith
  then show ?thesis
    using i unfolding occurs recursive_search_default_end
    by (intro exI [of _ i]) (auto split: if_splits)
qed

lemma recursive_search_midpoint_hit:
  assumes "0 \<le> start" "start \<le> end" "end < int (length numbers)"
    "numbers ! nat ((start + end) div 2) = target"
  shows "recursive_search numbers target start (Some end) = Inr ((start + end) div 2)"
  using recursive_search_step [OF assms(2) assms(1) assms(3), of target] assms(4)
  by (simp add: Let_def)

text \<open>
  C1 (as amended). For every list sorted in ascending order and every target,
  \<open>recursive_search\<close> called with the defaults (start 0, end omitted) returns an index
  \<open>i\<close> with \<open>numbers[i] = target\<close> when the target occurs in the list and \<open>- 1\<close> when it
  does not. On any list, a range with \<open>start > end\<close> gives \<open>- 1\<close>, and the element
  compared first is the one at the floor of \<open>(start + end) / 2\<close>. In the list
  \<open>[5,7,13,23,29,36,42,56,81,91]\<close> the search for 29 returns index 4, and the search for
  100 returns \<open>- 1\<close>.
\<close>

theorem recursive_search_correct:
  fixes numbers :: "'a::linorder list"
  assumes "sorted numbers"
  shows "(\<exists>i. recursive_search numbers target 0 None = Inr i \<and>
            (if target \<in> set numbers
             then 0 \<le> i \<and> i < int (length numbers) \<and> numbers ! nat i = target
             else i = - 1))
       \<and> (\<forall>start end. end < start \<longrightarrow>
             recursive_search numbers target start (Some end) = Inr (- 1))
       \<and> (\<forall>start end. 0 \<le> start \<and> start \<le> end \<and> end < int (length numbers) \<and>
             numbers ! nat ((start + end) div 2) = target \<longrightarrow>
             recursive_search numbers target start (Some end) = Inr ((start + end) div 2))
       \<and> recursive_search [5, 7, 13, 23, 29, 36, 42, 56, 81, 91 :: int] 29 0 None = Inr 4
       \<and> recursive_search [5, 7, 13, 23, 29, 36, 42, 56, 81, 91 :: int] 100 0 None = Inr (- 1)"
proof (intro conjI allI impI)
  show "\<exists>i. recursive_search numbers target 0 None = Inr i \<and>
            (if target \<in> set numbers
             then 0 \<le> i \<and> i < int (length numbers) \<and> numbers ! nat i = target
             else i = - 1)"
    using assms by (rule recursive_search_whole_list)
next
  fix start "end" :: int
  assume "end < start"
  then show "recursive_search numbers target start (Some end) = Inr (- 1)"
    by (rule recursive_search_base)
next
  fix start "end" :: int
  assume "0 \<le> start \<and> start \<le> end \<and> end < int (length numbers) \<and>
             numbers ! nat ((start + end) div 2) = target"
  then show "recursive_search numbers target start (Some end) = Inr ((start + end) div 2)"
    using recursive_search_midpoint_hit by blast
next
  show "recursive_search [5, 7, 13, 23, 29, 36, 42, 56, 81, 91 :: int] 29 0 None = Inr 4"
    by (simp add: recursive_search.simps getitem_def)
next
  show "recursive_search [5, 7, 13, 23, 29, 36, 42, 56, 81, 91 :: int] 100 0 None = Inr (- 1)"
    by (simp add: recursive_search.simps getitem_def)
qed

theorem recursive_search_correct_witness:
  "sorted [1, 3, 3, 8 :: int]
   \<and> (\<exists>i. recursive_search [1, 3, 3, 8 :: int] 3 0 None = Inr i \<and>
        0 \<le> i \<and> i < 4 \<and> [1, 3, 3, 8 :: int] ! nat i = 3)
   \<and> recursive_search [1, 3, 3, 8 :: int] 5 0 (Some (- 1)) = Inr (- 1)
   \<and> recursive_search [1, 3, 3, 8 :: int] 3 0 (Some 3) = Inr 1"
proof -
  have s: "sorted [1, 3, 3, 8 :: int]" by simp
  show ?thesis
    using s recursive_search_correct [OF s, of 3]
      recursive_search_correct [OF s, of 5]
    by auto
qed

theorem recursive_search_index_3_counterexample:
  "recursive_search [5, 7, 13, 23, 29, 36, 42, 56, 81, 91 :: int] 29 0 None \<noteq> Inr 3"
  by (simp add: recursive_search.simps getitem_def)

subsection \<open>The pattern checker\<close>

lemma window_loop_map:
  "window_loop s is out =
     out @ map (\<lambda>i. if take 3 (drop i s) = ''111'' then CHR ''1'' else CHR ''0'') is"
  by (induction "is" arbitrary: out) (simp_all add: Let_def)

lemma calculated_output_map:
  "calculated_output s =
     map (\<lambda>i. if take 3 (drop i s) = ''111'' then CHR ''1'' else CHR ''0'') [0..<length s - 2]
       @ ''00''"
proof -
  have "nat (int (length s) - 2) = length s - 2" by linarith
  then show ?thesis
    by (simp add: calculated_output_def window_loop_map numeral_2_eq_2)
qed

lemma window_chars:
  assumes "i + 3 \<le> length s"
  shows "take 3 (drop i s) = [s ! i, s ! (i + 1), s ! (i + 2)]"
proof -
  have "length (take 3 (drop i s)) = 3" using assms by simp
  moreover have "take 3 (drop i s) ! k = [s ! i, s ! (i + 1), s ! (i + 2)] ! k" if "k < 3" for k
  proof -
    have "k = 0 \<or> k = 1 \<or> k = 2" using that by linarith
    then show ?thesis using assms by auto
  qed
  ultimately show ?thesis by (intro nth_equalityI) auto
qed

lemma calculated_output_length:
  "2 \<le> length s \<Longrightarrow> length (calculated_output s) = length s"
  by (simp add: calculated_output_map)

lemma calculated_output_nth:
  assumes "i + 3 \<le> length s"
  shows "calculated_output s ! i =
    (if s ! i = CHR ''1'' \<and> s ! (i + 1) = CHR ''1'' \<and> s ! (i + 2) = CHR ''1''
     then CHR ''1'' else CHR ''0'')"
proof -
  have i: "i < length s - 2" using assms by linarith
  then have "calculated_output s ! i =
      (if take 3 (drop i s) = ''111'' then CHR ''1'' else CHR ''0'')"
    by (simp add: calculated_output_map nth_append)
  then show ?thesis using window_chars [OF assms] by simp
qed

lemma calculated_output_tail:
  assumes "2 \<le> length s"
  shows "calculated_output s ! (length s - 2) = CHR ''0''"
    and "calculated_output s ! (length s - 1) = CHR ''0''"
proof -
  have "length s - 1 = Suc (length s - 2)" using assms by linarith
  then show "calculated_output s ! (length s - 2) = CHR ''0''"
    and "calculated_output s ! (length s - 1) = CHR ''0''"
    by (simp_all add: calculated_output_map nth_append)
qed

lemma calculated_output_short: "length s < 2 \<Longrightarrow> calculated_output s = ''00''"
  by (simp add: calculated_output_map)

text \<open>
  C2 (as amended). For every input string of length at least 2, the output of the
  pattern checker has the length of the input; each position \<open>i\<close> from 0 to
  \<open>length - 3\<close> is \<open>1\<close> exactly when the three characters of the input from \<open>i\<close> on are
  \<open>111\<close>, and \<open>0\<close> otherwise; the last two positions are \<open>0\<close>. For the input \<open>111\<close> the
  output is \<open>100\<close>.
\<close>

theorem calculated_output_windows:
  assumes "2 \<le> length s"
  shows "length (calculated_output s) = length s
       \<and> (\<forall>i. i + 3 \<le> length s \<longrightarrow>
             calculated_output s ! i =
               (if s ! i = CHR ''1'' \<and> s ! (i + 1) = CHR ''1'' \<and> s ! (i + 2) = CHR ''1''
                then CHR ''1'' else CHR ''0''))
       \<and> calculated_output s ! (length s - 2) = CHR ''0''
       \<and> calculated_output s ! (length s - 1) = CHR ''0''
       \<and> calculated_output ''111'' = ''100''"
proof (intro conjI allI impI)
  show "length (calculated_output s) = length s"
    using assms by (rule calculated_output_length)
  show "calculated_output s ! (length s - 2) = CHR ''0''"
    using assms by (rule calculated_output_tail(1))
  show "calculated_output s ! (length s - 1) = CHR ''0''"
    using assms by (rule calculated_output_tail(2))
  show "calculated_output ''111'' = ''100''"
    by code_simp
next
  fix i
  assume "i + 3 \<le> length s"
  then show "calculated_output s ! i =
      (if s ! i = CHR ''1'' \<and> s ! (i + 1) = CHR ''1'' \<and> s ! (i + 2) = CHR ''1''
       then CHR ''1'' else CHR ''0'')"
    by (rule calculated_output_nth)
qed

theorem calculated_output_windows_witness:
  "2 \<le> length ''01110''
   \<and> length (calculated_output ''01110'') = length ''01110''
   \<and> calculated_output ''01110'' ! 0 = CHR ''0''
   \<and> calculated_output ''01110'' ! 1 = CHR ''1''
   \<and> calculated_output ''01110'' ! 2 = CHR ''0''
   \<and> calculated_output ''01110'' ! 3 = CHR ''0''
   \<and> calculated_output ''01110'' ! 4 = CHR ''0''"
proof -
  have l: "2 \<le> length ''01110''" by simp
  note t = calculated_output_windows [OF l]
  have nth: "calculated_output ''01110'' ! i =
      (if ''01110'' ! i = CHR ''1'' \<and> ''01110'' ! (i + 1) = CHR ''1'' \<and>
          ''01110'' ! (i + 2) = CHR ''1''
       then CHR ''1'' else CHR ''0'')" if "i + 3 \<le> length ''01110''" for i
    using t that by blast
  have n3: "length ''01110'' - 2 = 3" and n4: "length ''01110'' - 1 = 4" by simp_all
  have "length (calculated_output ''01110'') = length ''01110''" using t by blast
  moreover have "calculated_output ''01110'' ! 0 = CHR ''0''" using nth [of 0] by simp
  moreover have "calculated_output ''01110'' ! 1 = CHR ''1''" using nth [of 1] by simp
  moreover have "calculated_output ''01110'' ! 2 = CHR ''0''" using nth [of 2] by simp
  moreover have "calculated_output ''01110'' ! 3 = CHR ''0''" using t unfolding n3 by blast
  moreover have "calculated_output ''01110'' ! 4 = CHR ''0''" using t unfolding n4 by blast
  ultimately show ?thesis using l by blast
qed

theorem calculated_output_short_input_counterexample:
  "length (calculated_output ''1'') \<noteq> length ''1''"
  by code_simp

text \<open>
  C3. For the hard-coded input the calculated string is
  \<open>0000000010000000010000000000100\<close>, with its ones at the indices 8, 17 and 28 where
  the windows \<open>111\<close> start; the hard-coded expected string has its ones at 10, 19 and 30;
  so the comparison the function prints is False.
\<close>

theorem analyze_binary_sequence_puzzle_mismatch:
  "calculated_output input_sequence = ''0000000010000000010000000000100''
   \<and> filter (\<lambda>i. calculated_output input_sequence ! i = CHR ''1'')
        [0..<length (calculated_output input_sequence)] = [8, 17, 28]
   \<and> filter (\<lambda>i. take 3 (drop i input_sequence) = ''111'')
        [0..<length input_sequence] = [8, 17, 28]
   \<and> filter (\<lambda>i. output_sequence ! i = CHR ''1'') [0..<length output_sequence] = [10, 19, 30]
   \<and> analyze_binary_sequence_puzzle = (''0000000010000000010000000000100'', False)"
  by code_simp

subsection \<open>The Fibonacci sum\<close>

text \<open>
  The loop invariant: \<open>a\<close> and \<open>b\<close> are two consecutive Fibonacci numbers and
  \<open>total_sum\<close> is the sum of all of them up to \<open>b\<close>.
\<close>

lemma fib_loop_invariant:
  "fib_loop is (fibonacci_spec k, fibonacci_spec (Suc k), sum fibonacci_spec {..Suc k}) =
     (fibonacci_spec (k + length is), fibonacci_spec (Suc (k + length is)),
      sum fibonacci_spec {..Suc (k + length is)})"
proof (induction "is" arbitrary: k)
  case Nil
  then show ?case by simp
next
  case (Cons i rest)
  have "fib_loop (i # rest)
        (fibonacci_spec k, fibonacci_spec (Suc k), sum fibonacci_spec {..Suc k}) =
      fib_loop rest
        (fibonacci_spec (Suc k), fibonacci_spec (Suc (Suc k)), sum fibonacci_spec {..Suc (Suc k)})"
    by simp
  also have "\<dots> =
      (fibonacci_spec (Suc k + length rest), fibonacci_spec (Suc (Suc k + length rest)),
       sum fibonacci_spec {..Suc (Suc k + length rest)})"
    by (rule Cons.IH)
  finally show ?case by simp
qed

lemma sum_fibonacci_spec_from_1: "sum fibonacci_spec {..n} = (\<Sum>k = 1..n. fibonacci_spec k)"
  by (induction n) simp_all

lemma sum_fibonacci_pos:
  assumes "0 < n"
  shows "sum_fibonacci (Some n) = (\<Sum>k = 1..nat n. fibonacci_spec k)"
proof -
  have len: "Suc (length [2..n]) = nat n" using assms by simp
  have "fib_loop [2..n]
        (fibonacci_spec 0, fibonacci_spec (Suc 0), sum fibonacci_spec {..Suc 0}) =
      (fibonacci_spec (0 + length [2..n]), fibonacci_spec (Suc (0 + length [2..n])),
       sum fibonacci_spec {..Suc (0 + length [2..n])})"
    by (rule fib_loop_invariant)
  then have "fib_loop [2..n] (0, 1, 1) =
      (fibonacci_spec (length [2..n]), fibonacci_spec (nat n), sum fibonacci_spec {..nat n})"
    unfolding add_0 len by simp
  then have "sum_fibonacci (Some n) = sum fibonacci_spec {..nat n}"
    using assms by (simp add: sum_fibonacci_def)
  then show ?thesis by (simp only: sum_fibonacci_spec_from_1)
qed

text \<open>
  C6. For every integer \<open>n\<close>, \<open>sum_fibonacci(n)\<close> is the sum of the first \<open>n\<close> Fibonacci
  numbers, numbered from \<open>F(1) = 1\<close> and \<open>F(2) = 1\<close>, and 0 for \<open>n \<le> 0\<close>;
  \<open>sum_fibonacci(1) = 1\<close>,
  \<open>sum_fibonacci(2) = 2\<close>, \<open>sum_fibonacci(0) = 0\<close>; without an argument \<open>n\<close> is 50.
\<close>

theorem sum_fibonacci_correct:
  "sum_fibonacci (Some n) = (if n \<le> 0 then 0 else (\<Sum>k = 1..nat n. fibonacci_spec k))
   \<and> fibonacci_spec 1 = 1 \<and> fibonacci_spec 2 = 1
   \<and> sum_fibonacci (Some 1) = 1
   \<and> sum_fibonacci (Some 2) = 2
   \<and> sum_fibonacci (Some 0) = 0
   \<and> sum_fibonacci None = sum_fibonacci (Some 50)
   \<and> sum_fibonacci None = 32951280098"
proof (intro conjI)
  show "sum_fibonacci (Some n) = (if n \<le> 0 then 0 else (\<Sum>k = 1..nat n. fibonacci_spec k))"
    using sum_fibonacci_pos [of n] by (simp add: sum_fibonacci_def)
  show "fibonacci_spec 1 = 1" by simp
  show "fibonacci_spec 2 = 1" by code_simp
  show "sum_fibonacci (Some 1) = 1" by code_simp
  show "sum_fibonacci (Some 2) = 2" by code_simp
  show "sum_fibonacci (Some 0) = 0" by code_simp
  show "sum_fibonacci None = sum_fibonacci (Some 50)" by (simp add: sum_fibonacci_def)
  show "sum_fibonacci None = 32951280098" by code_simp
qed

theorem sum_fibonacci_correct_witness:
  "sum_fibonacci (Some 5) = 1 + 1 + 2 + 3 + 5 \<and> sum_fibonacci (Some (- 3)) = 0"
  using sum_fibonacci_correct [of 5] sum_fibonacci_correct [of "- 3"]
  by (simp add: eval_nat_numeral)

subsection \<open>The dict operations and Counter\<close>

lemma map_of_dict_set: "map_of (dict_set d k v) = (map_of d)(k \<mapsto> v)"
  by (induction d) (auto simp: fun_eq_iff)

lemma dict_get_dict_set:
  "dict_get (dict_set d k v) k' dflt = (if k' = k then v else dict_get d k' dflt)"
  by (simp add: dict_get_def map_of_dict_set)

lemma keys_dict_set:
  "map fst (dict_set d k v) = (if k \<in> fst ` set d then map fst d else map fst d @ [k])"
  by (induction d) force+

lemma key_set_dict_set: "fst ` set (dict_set d k v) = insert k (fst ` set d)"
  using keys_dict_set [of d k v, THEN arg_cong, of set] by (auto split: if_splits)

lemma distinct_dict_set:
  "distinct (map fst d) \<Longrightarrow> distinct (map fst (dict_set d k v))"
  by (simp add: keys_dict_set)

lemma set_dict_set: "set (dict_set d k v) \<subseteq> insert (k, v) (set d)"
  by (induction d) (auto split: if_splits)

lemma sum_dict_set:
  fixes d :: "'k counter"
  shows "sum_list (map snd (dict_set d k v)) = sum_list (map snd d) - dict_get d k 0 + v"
  by (induction d) (auto simp: dict_get_def)

lemma dict_get_absent: "k \<notin> fst ` set d \<Longrightarrow> dict_get d k dflt = dflt"
  by (simp add: dict_get_def map_of_eq_None_iff [THEN iffD2])

lemma dict_get_member:
  "distinct (map fst d) \<Longrightarrow> (k, v) \<in> set d \<Longrightarrow> dict_get d k dflt = v"
  by (simp add: dict_get_def)

lemma dict_get_nonneg:
  fixes d :: "'k counter"
  assumes "\<forall>(k, c)\<in>set d. 1 \<le> c"
  shows "0 \<le> dict_get d k 0"
proof (cases "map_of d k")
  case None
  then show ?thesis by (simp add: dict_get_def)
next
  case (Some c)
  then have "(k, c) \<in> set d" by (rule map_of_SomeD)
  then show ?thesis using assms Some by (auto simp: dict_get_def)
qed

lemma count_elements_distinct:
  "distinct (map fst m) \<Longrightarrow> distinct (map fst (count_elements m xs))"
  by (induction xs arbitrary: m) (simp_all add: distinct_dict_set)

lemma count_elements_keys:
  "fst ` set (count_elements m xs) = fst ` set m \<union> set xs"
  by (induction xs arbitrary: m) (simp_all add: key_set_dict_set)

lemma count_elements_sum:
  "sum_list (map snd (count_elements m xs)) = sum_list (map snd m) + int (length xs)"
  by (induction xs arbitrary: m) (simp_all add: sum_dict_set)

lemma count_elements_get:
  "dict_get (count_elements m xs) k 0 = dict_get m k 0 + int (count_list xs k)"
  by (induction xs arbitrary: m) (simp_all add: dict_get_dict_set)

lemma count_elements_positive:
  assumes "\<forall>(k, c)\<in>set m. 1 \<le> c"
  shows "\<forall>(k, c)\<in>set (count_elements m xs). 1 \<le> c"
  using assms
proof (induction xs arbitrary: m)
  case Nil
  then show ?case by simp
next
  case (Cons x xs)
  have "0 \<le> dict_get m x 0" using Cons.prems by (rule dict_get_nonneg)
  then have "\<forall>(k, c)\<in>insert (x, dict_get m x 0 + 1) (set m). 1 \<le> c"
    using Cons.prems by auto
  then have "\<forall>(k, c)\<in>set (dict_set m x (dict_get m x 0 + 1)). 1 \<le> c"
    using set_dict_set [of m x "dict_get m x 0 + 1"] by blast
  then show ?case using Cons.IH by simp
qed

lemma Counter_distinct: "distinct (map fst (Counter xs))"
  by (simp add: Counter_def count_elements_distinct)

lemma Counter_keys: "fst ` set (Counter xs) = set xs"
  using count_elements_keys [of "[]" xs] by (simp add: Counter_def)

lemma Counter_sum: "sum_list (map snd (Counter xs)) = int (length xs)"
  by (simp add: Counter_def count_elements_sum)

lemma Counter_get: "dict_get (Counter xs) k 0 = int (count_list xs k)"
proof -
  have "dict_get [] k 0 = (0::int)" by (simp add: dict_get_def)
  then show ?thesis unfolding Counter_def count_elements_get by simp
qed

lemma Counter_positive: "\<forall>(k, c)\<in>set (Counter xs). 1 \<le> c"
  unfolding Counter_def by (rule count_elements_positive) simp

lemma Counter_member: "(k, c) \<in> set (Counter xs) \<Longrightarrow> c = int (count_list xs k)"
  using dict_get_member [OF Counter_distinct, of k c xs 0] by (simp add: Counter_get)

lemma Counter_empty_iff: "Counter xs = [] \<longleftrightarrow> xs = []"
  using Counter_keys [of xs] by (metis image_is_empty set_empty)


subsection \<open>The frequency table\<close>

lemma load_data_counter:
  "color_counter (fst (load_data self file_matches)) =
     Some (Counter (colors (fst (load_data self file_matches))))"
  by (simp add: load_data_def Let_def)

lemma load_data_result:
  "snd (load_data self file_matches) = int (length (colors (fst (load_data self file_matches))))"
  by (simp add: load_data_def Let_def)

text \<open>
  C4. For every list of tokens, the frequency table \<open>Counter tokens\<close> that \<open>load_data\<close>
  builds has unique keys and non-negative counts, the count of every token is the number
  of its occurrences in the list, and the counts add up to the length of the list, which
  is also the number \<open>load_data\<close> returns.
\<close>

theorem Counter_frequency_table:
  "distinct (map fst (Counter tokens))
   \<and> (\<forall>(k, c)\<in>set (Counter tokens). 0 \<le> c)
   \<and> sum_list (map snd (Counter tokens)) = int (length tokens)
   \<and> (\<forall>k. dict_get (Counter tokens) k 0 = int (count_list tokens k))
   \<and> color_counter (fst (load_data self file_matches)) =
       Some (Counter (colors (fst (load_data self file_matches))))
   \<and> snd (load_data self file_matches) =
       sum_list (map snd (Counter (colors (fst (load_data self file_matches)))))"
proof (intro conjI allI)
  show "distinct (map fst (Counter tokens))" by (rule Counter_distinct)
  show "\<forall>(k, c)\<in>set (Counter tokens). 0 \<le> c"
    using Counter_positive [of tokens] by fastforce
  show "sum_list (map snd (Counter tokens)) = int (length tokens)" by (rule Counter_sum)
  show "dict_get (Counter tokens) k 0 = int (count_list tokens k)" for k by (rule Counter_get)
  show "color_counter (fst (load_data self file_matches)) =
       Some (Counter (colors (fst (load_data self file_matches))))"
    by (rule load_data_counter)
  show "snd (load_data self file_matches) =
       sum_list (map snd (Counter (colors (fst (load_data self file_matches)))))"
    by (simp only: load_data_result Counter_sum)
qed

theorem Counter_frequency_table_witness:
  "Counter [''RED'', ''BLUE'', ''RED''] = [(''RED'', 2), (''BLUE'', 1)]
   \<and> distinct (map fst (Counter [''RED'', ''BLUE'', ''RED'']))
   \<and> sum_list (map snd (Counter [''RED'', ''BLUE'', ''RED''])) = 3
   \<and> snd (load_data (init None) None) = 95"
proof -
  have "Counter [''RED'', ''BLUE'', ''RED''] = [(''RED'', 2), (''BLUE'', 1)]" by code_simp
  moreover have "snd (load_data (init None) None) = 95" by code_simp
  ultimately show ?thesis
    using Counter_frequency_table [of "[''RED'', ''BLUE'', ''RED'']" "init None" None]
    by simp
qed

subsection \<open>The color normalizer\<close>

lemma clean_loop_map_filter:
  "clean_loop xs acc =
     acc @ map (\<lambda>t. if t = ''BLEW'' then ''BLUE'' else if t = ''ARSH'' then ''ASH'' else t)
             (filter (\<lambda>t. t \<noteq> []) xs)"
  by (induction xs arbitrary: acc) (auto simp: Let_def)

lemma collect_colors_concat:
  "collect_colors ms acc =
     acc @ map strip (concat (map (\<lambda>(day, colors_str). split_comma colors_str) ms))"
  by (induction ms arbitrary: acc) (auto simp: map_concat)

lemma strip_trims:
  "\<exists>pre post. s = pre @ strip s @ post \<and> (\<forall>c\<in>set pre. isspace c) \<and> (\<forall>c\<in>set post. isspace c)
     \<and> (strip s \<noteq> [] \<longrightarrow> \<not> isspace (hd (strip s)) \<and> \<not> isspace (last (strip s)))"
proof -
  define d where "d = dropWhile isspace s"
  define pre where "pre = takeWhile isspace s"
  define post where "post = rev (takeWhile isspace (rev d))"
  have st: "strip s = rev (dropWhile isspace (rev d))" by (simp add: strip_def d_def)
  have "rev (takeWhile isspace (rev d) @ dropWhile isspace (rev d)) = d" by simp
  then have "rev (dropWhile isspace (rev d)) @ rev (takeWhile isspace (rev d)) = d"
    by (simp only: rev_append)
  then have d: "d = strip s @ post" by (simp only: st post_def)
  have "s = pre @ d" by (simp add: pre_def d_def)
  then have s: "s = pre @ strip s @ post" using d by simp
  have pre: "\<forall>c\<in>set pre. isspace c" by (auto simp: pre_def dest: set_takeWhileD)
  have post: "\<forall>c\<in>set post. isspace c" by (auto simp: post_def dest: set_takeWhileD)
  have ends: "\<not> isspace (hd (strip s)) \<and> \<not> isspace (last (strip s))" if ne: "strip s \<noteq> []"
  proof -
    have "d \<noteq> []" using d ne by auto
    then have "\<not> isspace (hd d)" unfolding d_def by (rule hd_dropWhile)
    moreover have "hd d = hd (strip s)" using d ne by (metis hd_append2)
    moreover have "dropWhile isspace (rev d) \<noteq> []" using ne st by simp
    then have "\<not> isspace (hd (dropWhile isspace (rev d)))" by (rule hd_dropWhile)
    moreover have "last (strip s) = hd (dropWhile isspace (rev d))"
      using ne st by (simp add: last_rev)
    ultimately show ?thesis by simp
  qed
  show ?thesis using s pre post ends by blast
qed

text \<open>
  C5. \<open>clean_colors\<close> drops the empty tokens, rewrites exactly \<open>BLEW\<close> to \<open>BLUE\<close> and
  \<open>ARSH\<close> to \<open>ASH\<close>, and keeps every other token as it is and in its place. Both
  extraction functions apply it to the stripped pieces of the comma-separated strings, and
  \<open>strip\<close> removes exactly the whitespace before and after a token. The functions are
  total: no branch raises.
\<close>

theorem clean_colors_normalizes:
  "clean_colors (map strip raw) =
     map (\<lambda>t. if t = ''BLEW'' then ''BLUE'' else if t = ''ARSH'' then ''ASH'' else t)
       (filter (\<lambda>t. t \<noteq> []) (map strip raw))
   \<and> clean_colors color_list =
     map (\<lambda>t. if t = ''BLEW'' then ''BLUE'' else if t = ''ARSH'' then ''ASH'' else t)
       (filter (\<lambda>t. t \<noteq> []) color_list)
   \<and> (\<exists>pre post. s = pre @ strip s @ post
        \<and> (\<forall>c\<in>set pre. isspace c) \<and> (\<forall>c\<in>set post. isspace c)
        \<and> (strip s \<noteq> [] \<longrightarrow> \<not> isspace (hd (strip s)) \<and> \<not> isspace (last (strip s))))
   \<and> extract_colors_from_file matches =
       clean_colors (map strip (concat (map (\<lambda>(day, colors_str). split_comma colors_str) matches)))
   \<and> extract_colors_from_hardcoded =
       clean_colors (map strip (concat (map (\<lambda>(day, colors_str). split_comma colors_str) color_data)))
   \<and> clean_colors (map strip ['' BLEW'', ''ARSH '', [], ''  '', ''blew'', ''RED'', ''BLEW X''])
       = [''BLUE'', ''ASH'', ''blew'', ''RED'', ''BLEW X'']"
proof (intro conjI)
  have clean: "clean_colors xs =
     map (\<lambda>t. if t = ''BLEW'' then ''BLUE'' else if t = ''ARSH'' then ''ASH'' else t)
       (filter (\<lambda>t. t \<noteq> []) xs)" for xs
    by (simp add: clean_colors_def clean_loop_map_filter)
  show "clean_colors (map strip raw) =
     map (\<lambda>t. if t = ''BLEW'' then ''BLUE'' else if t = ''ARSH'' then ''ASH'' else t)
       (filter (\<lambda>t. t \<noteq> []) (map strip raw))"
    by (rule clean)
  show "clean_colors color_list =
     map (\<lambda>t. if t = ''BLEW'' then ''BLUE'' else if t = ''ARSH'' then ''ASH'' else t)
       (filter (\<lambda>t. t \<noteq> []) color_list)"
    by (rule clean)
  show "\<exists>pre post. s = pre @ strip s @ post
        \<and> (\<forall>c\<in>set pre. isspace c) \<and> (\<forall>c\<in>set post. isspace c)
        \<and> (strip s \<noteq> [] \<longrightarrow> \<not> isspace (hd (strip s)) \<and> \<not> isspace (last (strip s)))"
    by (rule strip_trims)
  show "extract_colors_from_file matches =
       clean_colors (map strip (concat (map (\<lambda>(day, colors_str). split_comma colors_str) matches)))"
    by (simp add: extract_colors_from_file_def collect_colors_concat)
  show "extract_colors_from_hardcoded =
       clean_colors (map strip (concat (map (\<lambda>(day, colors_str). split_comma colors_str) color_data)))"
    by (simp add: extract_colors_from_hardcoded_def collect_colors_concat)
  show "clean_colors (map strip ['' BLEW'', ''ARSH '', [], ''  '', ''blew'', ''RED'', ''BLEW X''])
       = [''BLUE'', ''ASH'', ''blew'', ''RED'', ''BLEW X'']"
    by code_simp
qed

theorem clean_colors_normalizes_witness:
  "clean_colors [''BLEW'', [], ''ARSH'', ''PINK''] = [''BLUE'', ''ASH'', ''PINK'']
   \<and> extract_colors_from_file [(''MONDAY'', ''RED , BLEW,, ARSH'')] = [''RED'', ''BLUE'', ''ASH'']
   \<and> strip '' RED  '' = ''RED''"
proof -
  have "strip '' RED  '' = ''RED''" by code_simp
  moreover have "map strip (split_comma ''RED , BLEW,, ARSH'') = [''RED'', ''BLEW'', [], ''ARSH'']"
    by code_simp
  ultimately show ?thesis
    using clean_colors_normalizes [of "[]" "[''BLEW'', [], ''ARSH'', ''PINK'']" "'' RED  ''"
        "[(''MONDAY'', ''RED , BLEW,, ARSH'')]"]
      clean_colors_normalizes [of "[]" "[''RED'', ''BLEW'', [], ''ARSH'']" "[]" "[]"]
    by simp
qed

subsection \<open>The most common color\<close>

lemma max_by_count_position:
  assumes "\<forall>p\<in>set pre. snd p < snd best" "\<forall>p\<in>set mid. snd p \<le> snd best"
  shows "\<exists>pre' post'. pre @ best # mid @ rest = pre' @ max_by_count best rest # post' \<and>
      (\<forall>p\<in>set pre'. snd p < snd (max_by_count best rest)) \<and>
      (\<forall>p\<in>set post'. snd p \<le> snd (max_by_count best rest))"
  using assms
proof (induction rest arbitrary: best pre mid)
  case Nil
  then show ?case by auto
next
  case (Cons item rest)
  show ?case
  proof (cases "snd item > snd best")
    case True
    have "\<forall>p\<in>set (pre @ best # mid). snd p < snd item"
      using Cons.prems True by fastforce
    moreover have "\<forall>p\<in>set []. snd p \<le> snd item" by simp
    ultimately obtain pre' post' where
      "(pre @ best # mid) @ item # [] @ rest = pre' @ max_by_count item rest # post'"
      "\<forall>p\<in>set pre'. snd p < snd (max_by_count item rest)"
      "\<forall>p\<in>set post'. snd p \<le> snd (max_by_count item rest)"
      using Cons.IH [of "pre @ best # mid" item "[]"] by blast
    then show ?thesis using True by auto
  next
    case False
    then have "\<forall>p\<in>set (mid @ [item]). snd p \<le> snd best"
      using Cons.prems(2) by auto
    then obtain pre' post' where
      "pre @ best # (mid @ [item]) @ rest = pre' @ max_by_count best rest # post'"
      "\<forall>p\<in>set pre'. snd p < snd (max_by_count best rest)"
      "\<forall>p\<in>set post'. snd p \<le> snd (max_by_count best rest)"
      using Cons.IH [of pre best "mid @ [item]"] Cons.prems(1) by blast
    then show ?thesis using False by auto
  qed
qed

lemma most_common_1_first_max:
  assumes "cc \<noteq> []"
  shows "\<exists>tok c pre post. most_common_1 cc = [(tok, c)] \<and> cc = pre @ (tok, c) # post \<and>
      (\<forall>p\<in>set pre. snd p < c) \<and> (\<forall>p\<in>set post. snd p \<le> c)"
proof -
  obtain item rest where cc: "cc = item # rest" using assms by (cases cc) auto
  obtain pre post where p: "[] @ item # [] @ rest = pre @ max_by_count item rest # post"
    "\<forall>p\<in>set pre. snd p < snd (max_by_count item rest)"
    "\<forall>p\<in>set post. snd p \<le> snd (max_by_count item rest)"
    using max_by_count_position [of "[]" item "[]" rest] by auto
  obtain tok c where m: "max_by_count item rest = (tok, c)" by (cases "max_by_count item rest")
  have "most_common_1 cc = [(tok, c)]" by (simp add: most_common_1_def cc m)
  moreover have "cc = pre @ (tok, c) # post" using p(1) by (simp add: cc m)
  ultimately show ?thesis using p(2,3) m by auto
qed

lemma Max_of_split:
  fixes c :: int
  assumes "cc = pre @ (tok, c) # post" "\<forall>p\<in>set pre. snd p < c" "\<forall>p\<in>set post. snd p \<le> c"
  shows "Max (snd ` set cc) = c"
proof (rule Max_eqI)
  show "finite (snd ` set cc)" by simp
  show "c \<in> snd ` set cc" using assms(1) by force
  fix y assume "y \<in> snd ` set cc"
  then show "y \<le> c" using assms by force
qed

lemma getitem_singleton: "getitem [x] 0 = Inr x"
  by (simp add: getitem_def)

lemma getitem_empty: "getitem [] i = Inl IndexError"
  by (simp add: getitem_def)

lemma get_most_common_color_Counter:
  assumes "color_counter self = Some (Counter tokens)" "tokens \<noteq> []"
  shows "\<exists>tok c pre post. get_most_common_color self = Inr (tok, c) \<and>
      Counter tokens = pre @ (tok, c) # post \<and>
      (\<forall>p\<in>set pre. snd p < c) \<and> (\<forall>p\<in>set post. snd p \<le> c) \<and>
      dict_get (Counter tokens) tok 0 = c \<and>
      c = Max (snd ` set (Counter tokens)) \<and>
      c = int (count_list tokens tok)"
proof -
  have "Counter tokens \<noteq> []" using assms(2) by (simp add: Counter_empty_iff)
  then obtain tok c pre post where m: "most_common_1 (Counter tokens) = [(tok, c)]"
    "Counter tokens = pre @ (tok, c) # post"
    "\<forall>p\<in>set pre. snd p < c" "\<forall>p\<in>set post. snd p \<le> c"
    using most_common_1_first_max by blast
  have "get_most_common_color self = Inr (tok, c)"
    by (simp add: get_most_common_color_def assms(1) m(1) getitem_singleton)
  moreover have mem: "(tok, c) \<in> set (Counter tokens)" by (subst m(2)) simp
  then have "c = int (count_list tokens tok)" by (rule Counter_member)
  moreover have "dict_get (Counter tokens) tok 0 = c"
    using mem by (rule dict_get_member [OF Counter_distinct])
  moreover have "c = Max (snd ` set (Counter tokens))"
    using Max_of_split [OF m(2) m(3) m(4)] by simp
  ultimately show ?thesis using m(2,3,4) by blast
qed

lemma get_most_common_color_empty:
  "color_counter self = Some [] \<Longrightarrow> get_most_common_color self = Inl IndexError"
  by (simp add: get_most_common_color_def most_common_1_def getitem_empty)

text \<open>
  C7. On the table of a non-empty token list, \<open>get_most_common_color\<close> returns a pair
  \<open>(token, count)\<close> of the table whose count is the maximum of the table; every entry
  before it in the table's order has a strictly smaller count, so among the entries with
  the maximum count it is the first. On the empty table it raises IndexError. For the
  tokens \<open>[A, A, B]\<close> the result is \<open>(A, 2)\<close>.
\<close>

theorem get_most_common_color_mode:
  assumes "color_counter self = Some (Counter tokens)"
  shows "(tokens \<noteq> [] \<longrightarrow>
           (\<exists>tok c pre post. get_most_common_color self = Inr (tok, c)
              \<and> Counter tokens = pre @ (tok, c) # post
              \<and> (\<forall>p\<in>set pre. snd p < c) \<and> (\<forall>p\<in>set post. snd p \<le> c)
              \<and> dict_get (Counter tokens) tok 0 = c
              \<and> c = Max (snd ` set (Counter tokens))
              \<and> c = int (count_list tokens tok)))
       \<and> (tokens = [] \<longrightarrow> get_most_common_color self = Inl IndexError)
       \<and> get_most_common_color
           \<lparr>html_file = None, colors = [''A'', ''A'', ''B''],
            color_counter = Some (Counter [''A'', ''A'', ''B''])\<rparr> = Inr (''A'', 2)"
proof (intro conjI impI)
  assume "tokens \<noteq> []"
  then show "\<exists>tok c pre post. get_most_common_color self = Inr (tok, c)
              \<and> Counter tokens = pre @ (tok, c) # post
              \<and> (\<forall>p\<in>set pre. snd p < c) \<and> (\<forall>p\<in>set post. snd p \<le> c)
              \<and> dict_get (Counter tokens) tok 0 = c
              \<and> c = Max (snd ` set (Counter tokens))
              \<and> c = int (count_list tokens tok)"
    using assms get_most_common_color_Counter by blast
next
  assume "tokens = []"
  then have "color_counter self = Some []" using assms by (simp add: Counter_def)
  then show "get_most_common_color self = Inl IndexError"
    by (rule get_most_common_color_empty)
next
  show "get_most_common_color
           \<lparr>html_file = None, colors = [''A'', ''A'', ''B''],
            color_counter = Some (Counter [''A'', ''A'', ''B''])\<rparr> = Inr (''A'', 2)"
    by code_simp
qed

theorem get_most_common_color_mode_witness:
  "color_counter \<lparr>html_file = None, colors = [''B'', ''A'', ''A'', ''B'', ''C''],
      color_counter = Some (Counter [''B'', ''A'', ''A'', ''B'', ''C''])\<rparr>
     = Some (Counter [''B'', ''A'', ''A'', ''B'', ''C''])
   \<and> [''B'', ''A'', ''A'', ''B'', ''C''] \<noteq> []
   \<and> Counter [''B'', ''A'', ''A'', ''B'', ''C''] = [(''B'', 2), (''A'', 2), (''C'', 1)]
   \<and> get_most_common_color \<lparr>html_file = None, colors = [''B'', ''A'', ''A'', ''B'', ''C''],
      color_counter = Some (Counter [''B'', ''A'', ''A'', ''B'', ''C''])\<rparr> = Inr (''B'', 2)
   \<and> get_most_common_color \<lparr>html_file = None, colors = [], color_counter = Some (Counter [])\<rparr>
       = Inl IndexError"
proof -
  have "Counter [''B'', ''A'', ''A'', ''B'', ''C''] = [(''B'', 2), (''A'', 2), (''C'', 1)]"
    by code_simp
  moreover have "get_most_common_color \<lparr>html_file = None, colors = [''B'', ''A'', ''A'', ''B'', ''C''],
      color_counter = Some (Counter [''B'', ''A'', ''A'', ''B'', ''C''])\<rparr> = Inr (''B'', 2)"
    by code_simp
  moreover have "get_most_common_color
      \<lparr>html_file = None, colors = [], color_counter = Some (Counter ([] :: string list))\<rparr>
       = Inl IndexError"
    using get_most_common_color_mode [of "\<lparr>html_file = None, colors = [],
      color_counter = Some (Counter ([] :: string list))\<rparr>" "[]"] by simp
  ultimately show ?thesis by simp
qed

subsection \<open>The median color\<close>

lemma expand_colors_concat:
  "expand_colors cc acc = acc @ concat (map (\<lambda>(color, freq). replicate (nat freq) color) cc)"
  by (induction cc arbitrary: acc) auto

lemma count_expanded:
  assumes "distinct (map fst cc)"
  shows "count (mset (concat (map (\<lambda>(color, freq). replicate (nat freq) color) cc))) x =
     nat (dict_get cc x 0)"
  using assms
proof (induction cc)
  case Nil
  then show ?case by (simp add: dict_get_def)
next
  case (Cons p cc)
  obtain k c where p: "p = (k, c)" by (cases p)
  show ?case
  proof (cases "k = x")
    case True
    then have "x \<notin> fst ` set cc" using Cons.prems p by auto
    then have "dict_get cc x 0 = (0::int)" by (rule dict_get_absent)
    then show ?thesis using Cons p True by (simp add: dict_get_def)
  next
    case False
    then show ?thesis using Cons p by (simp add: dict_get_def)
  qed
qed

lemma mset_expanded_Counter:
  "mset (concat (map (\<lambda>(color, freq). replicate (nat freq) color) (Counter tokens))) = mset tokens"
proof (rule multiset_eqI)
  fix x
  have "count (mset (concat (map (\<lambda>(color, freq). replicate (nat freq) color) (Counter tokens)))) x =
      nat (dict_get (Counter tokens) x 0)"
    by (rule count_expanded [OF Counter_distinct])
  also have "\<dots> = count_list tokens x" by (simp add: Counter_get)
  also have "\<dots> = count (mset tokens) x" by (simp add: count_mset)
  finally show "count (mset (concat (map (\<lambda>(color, freq). replicate (nat freq) color) (Counter tokens)))) x =
      count (mset tokens) x" .
qed

lemma sort_expanded_Counter:
  fixes tokens :: "string list"
  shows "sort (concat (map (\<lambda>(color, freq). replicate (nat freq) color) (Counter tokens))) =
     sort tokens"
proof -
  have "mset (sort tokens) = mset (concat (map (\<lambda>(color, freq). replicate (nat freq) color) (Counter tokens)))"
    by (simp add: mset_expanded_Counter)
  then show ?thesis by (rule properties_for_sort) simp
qed

lemma getitem_middle:
  assumes "xs \<noteq> []"
  shows "getitem xs (int (length xs) div 2) = Inr (xs ! (length xs div 2))"
proof -
  have "int (length xs) div 2 = int (length xs div 2)" by simp
  moreover have "length xs div 2 < length xs" using assms by simp
  ultimately show ?thesis by (simp add: getitem_def)
qed

lemma get_median_color_expanded:
  assumes "color_counter self = Some cc"
  shows "get_median_color self =
     (let expanded = sort (concat (map (\<lambda>(color, freq). replicate (nat freq) color) cc))
      in getitem expanded (int (length expanded) div 2))"
  by (simp add: get_median_color_def assms expand_colors_concat Let_def)

text \<open>
  C8. On the table of a non-empty token list, \<open>get_median_color\<close> returns the element at
  index \<open>length div 2\<close> of the sorted list in which every token of the table is repeated
  by its count; that sorted list is the sorted token list. On the empty table it raises
  IndexError. For the tokens \<open>[A, A, B, B, B]\<close> the sorted expanded list is
  \<open>[A, A, B, B, B]\<close> and the median is \<open>B\<close>.
\<close>

theorem get_median_color_weighted:
  assumes "color_counter self = Some (Counter tokens)"
  shows "(tokens \<noteq> [] \<longrightarrow>
           get_median_color self =
             Inr (sort (concat (map (\<lambda>(color, freq). replicate (nat freq) color) (Counter tokens)))
                   ! (length (concat (map (\<lambda>(color, freq). replicate (nat freq) color)
                        (Counter tokens))) div 2)))
       \<and> sort (concat (map (\<lambda>(color, freq). replicate (nat freq) color) (Counter tokens)))
           = sort tokens
       \<and> (tokens \<noteq> [] \<longrightarrow> get_median_color self = Inr (sort tokens ! (length tokens div 2)))
       \<and> (tokens = [] \<longrightarrow> get_median_color self = Inl IndexError)
       \<and> sort (concat (map (\<lambda>(color, freq). replicate (nat freq) color)
             (Counter [''A'', ''A'', ''B'', ''B'', ''B''])))
           = [''A'', ''A'', ''B'', ''B'', ''B'']
       \<and> get_median_color
           \<lparr>html_file = None, colors = [''A'', ''A'', ''B'', ''B'', ''B''],
            color_counter = Some (Counter [''A'', ''A'', ''B'', ''B'', ''B''])\<rparr> = Inr ''B''"
proof -
  let ?expanded = "concat (map (\<lambda>(color, freq). replicate (nat freq) color) (Counter tokens))"
  have srt: "sort ?expanded = sort tokens" by (rule sort_expanded_Counter)
  have len: "length ?expanded = length tokens"
    using mset_expanded_Counter [of tokens] by (metis size_mset)
  have med: "get_median_color self = getitem (sort tokens) (int (length (sort tokens)) div 2)"
    using get_median_color_expanded [OF assms] by (simp only: Let_def srt)
  have ne: "get_median_color self = Inr (sort tokens ! (length tokens div 2))" if "tokens \<noteq> []"
  proof -
    have "sort tokens \<noteq> []" using that by (metis length_sort length_0_conv)
    then show ?thesis using getitem_middle [of "sort tokens"] med by simp
  qed
  have em: "get_median_color self = Inl IndexError" if "tokens = []"
    using med that by (simp add: getitem_empty)
  have ex1: "sort (concat (map (\<lambda>(color, freq). replicate (nat freq) color)
             (Counter [''A'', ''A'', ''B'', ''B'', ''B''])))
           = [''A'', ''A'', ''B'', ''B'', ''B'']"
    by code_simp
  have ex2: "get_median_color
           \<lparr>html_file = None, colors = [''A'', ''A'', ''B'', ''B'', ''B''],
            color_counter = Some (Counter [''A'', ''A'', ''B'', ''B'', ''B''])\<rparr> = Inr ''B''"
    by code_simp
  show ?thesis
    using ne em ex1 ex2 unfolding srt len by blast
qed

theorem get_median_color_weighted_witness:
  "color_counter \<lparr>html_file = None, colors = [''RED'', ''BLUE'', ''RED'', ''ASH''],
       color_counter = Some (Counter [''RED'', ''BLUE'', ''RED'', ''ASH''])\<rparr>
     = Some (Counter [''RED'', ''BLUE'', ''RED'', ''ASH''])
   \<and> [''RED'', ''BLUE'', ''RED'', ''ASH''] \<noteq> []
   \<and> sort [''RED'', ''BLUE'', ''RED'', ''ASH''] = [''ASH'', ''BLUE'', ''RED'', ''RED'']
   \<and> get_median_color \<lparr>html_file = None, colors = [''RED'', ''BLUE'', ''RED'', ''ASH''],
       color_counter = Some (Counter [''RED'', ''BLUE'', ''RED'', ''ASH''])\<rparr> = Inr ''RED''
   \<and> get_median_color \<lparr>html_file = None, colors = [],
       color_counter = Some (Counter ([] :: string list))\<rparr> = Inl IndexError"
proof -
  let ?toks = "[''RED'', ''BLUE'', ''RED'', ''ASH'']"
  let ?st = "\<lparr>html_file = None, colors = ?toks, color_counter = Some (Counter ?toks)\<rparr>"
  let ?none = "\<lparr>html_file = None, colors = [], color_counter = Some (Counter ([] :: string list))\<rparr>"
  have h: "color_counter ?st = Some (Counter ?toks)" by simp
  have hn: "color_counter ?none = Some (Counter [])" by simp
  have ne: "?toks \<noteq> []" by simp
  have s: "sort ?toks = [''ASH'', ''BLUE'', ''RED'', ''RED'']" by code_simp
  have "get_median_color ?st = Inr (sort ?toks ! (length ?toks div 2))"
    using get_median_color_weighted [OF h] ne by blast
  then have m: "get_median_color ?st = Inr ''RED''" unfolding s by simp
  have mn: "get_median_color ?none = Inl IndexError"
    using get_median_color_weighted [OF hn] by blast
  show ?thesis using h ne s m mn by blast
qed

subsection \<open>The probability of a color\<close>





subsection \<open>The variance of the counts\<close>







end
